theory Spec2Isabelle
  imports Complex_Main "HOL-Library.AList"
begin

section \<open>Python values and errors\<close>

text \<open>
  The payloads handled by \<^verbatim>\<open>_http/response_utils.py\<close> are untyped Python trees:
  dictionaries, lists, strings and scalars. A dictionary is kept as the list of its
  items in insertion order (the order in which \<^verbatim>\<open>.values()\<close> and \<^verbatim>\<open>.items()\<close>
  iterate); the keys of a real dictionary are pairwise distinct. Floats are carried as
  opaque scalars, compared structurally.
\<close>

datatype pyval =
    PNone
  | PBool bool
  | PInt int
  | PFloat real
  | PStr string
  | PList "pyval list"
  | PDict "(string \<times> pyval) list"

datatype py_error =
    JSONDecodeError
  | ValueError
  | RecursionError
  | IndexError
  | KeyError
  | TypeError
  | TransportError string

section \<open>The serialization codec\<close>

text \<open>
  \<^verbatim>\<open>json.loads\<close> belongs to the Python standard library, not to the repository. It is
  a parameter of the model: a value of type \<open>json_decoder\<close>, applied with \<open>json_loads\<close>.
  A call either decodes the text (\<open>Inr\<close>) or raises (\<open>Inl\<close>). The exception is
  \<^verbatim>\<open>json.JSONDecodeError\<close> for a text that is not JSON, but it can be another one: an
  integer literal of more than 4300 digits makes the conversion to \<^verbatim>\<open>int\<close> raise a plain
  \<^verbatim>\<open>ValueError\<close>, and a text nested too deeply raises \<^verbatim>\<open>RecursionError\<close>. The handlers
  of the source name \<^verbatim>\<open>json.JSONDecodeError\<close> only.

  The one fact about the codec the model relies on is that a decoded value is smaller than
  the text it was decoded from: \<open>msize v \<le> length s\<close>. JSON text satisfies it (a scalar
  takes at least one character, a string literal its characters and two quotes, an array or
  object its elements and two brackets). Without it the recursion of the source on a decoded
  string need not end. The depth of the recursion of the walk itself is not limited in the
  model.
\<close>

fun msize :: "pyval \<Rightarrow> nat" where
  "msize (PStr s) = Suc (length s)"
| "msize (PList xs) = Suc (sum_list (map msize xs))"
| "msize (PDict kvs) = Suc (sum_list (map (\<lambda>kv. msize (snd kv)) kvs))"
| "msize _ = Suc 0"

typedef json_decoder =
  "{f :: string \<Rightarrow> py_error + pyval. \<forall>s v. f s = Inr v \<longrightarrow> msize v \<le> length s}"
  by (rule exI [of _ "\<lambda>_. Inl JSONDecodeError"]) simp

setup_lifting type_definition_json_decoder

lift_definition json_loads :: "json_decoder \<Rightarrow> string \<Rightarrow> py_error + pyval" is "\<lambda>f. f" .

text \<open>
  A decoder given by a finite table of texts, each with its decoded value or the
  exception it raises; every other text raises \<^verbatim>\<open>json.JSONDecodeError\<close>. It is used to
  run the functions on concrete payloads.
\<close>

lift_definition table_decoder :: "(string \<times> (py_error + pyval)) list \<Rightarrow> json_decoder" is
  "\<lambda>tbl s. case map_of tbl s of
       Some (Inr v) \<Rightarrow> if msize v \<le> length s then Inr v else Inl JSONDecodeError
     | Some (Inl e) \<Rightarrow> Inl e
     | None \<Rightarrow> Inl JSONDecodeError"
  by (auto split: option.splits sum.splits if_splits)

text \<open>The text \<^verbatim>\<open>'1' * 4301\<close>: an integer literal one digit over the limit of the
  conversion.\<close>

definition long_integer_text :: string where
  "long_integer_text = replicate 4301 (CHR ''1'')"

section \<open>normalize_response\<close>

lemma json_loads_smaller: "json_loads d s = Inr v \<Longrightarrow> msize v \<le> length s"
  by transfer simp

lemma msize_member: "x \<in> set xs \<Longrightarrow> msize x \<le> sum_list (map msize xs)"
  by (induction xs) auto

lemma msize_value: "(k, v) \<in> set kvs \<Longrightarrow> msize v \<le> sum_list (map (\<lambda>kv. msize (snd kv)) kvs)"
  by (induction kvs) auto

text \<open>
  The inner function \<^verbatim>\<open>normalize\<close> appends to the list \<^verbatim>\<open>results\<close> in place and
  returns it. The model passes the list as state: it answers the exception that leaves the
  call, if any, together with the list as the call leaves it. A loop stops at the first
  exception. The handler \<^verbatim>\<open>except json.JSONDecodeError: pass\<close> encloses both
  \<^verbatim>\<open>json.loads\<close> and the recursive call on the decoded value.
\<close>

function normalize_inner ::
  "json_decoder \<Rightarrow> pyval \<Rightarrow> string \<Rightarrow> bool \<Rightarrow> pyval list \<Rightarrow> py_error option \<times> pyval list" where
  "normalize_inner d (PDict kvs) target_key keep_structure results =
     (let results1 =
        (case map_of kvs target_key of
           Some v \<Rightarrow> if keep_structure then results @ [PDict [(target_key, v)]]
                     else results @ [v]
         | None \<Rightarrow> results)
      in fold (\<lambda>(k, v) (err, r).
                 case err of
                   Some e \<Rightarrow> (Some e, r)
                 | None \<Rightarrow> normalize_inner d v target_key keep_structure r)
              kvs (None, results1))"
| "normalize_inner d (PList xs) target_key keep_structure results =
     fold (\<lambda>item (err, r).
             case err of
               Some e \<Rightarrow> (Some e, r)
             | None \<Rightarrow> normalize_inner d item target_key keep_structure r)
          xs (None, results)"
| "normalize_inner d (PStr s) target_key keep_structure results =
     (case json_loads d s of
        Inl e \<Rightarrow> if e = JSONDecodeError then (None, results) else (Some e, results)
      | Inr parsed_response \<Rightarrow>
          (case normalize_inner d parsed_response target_key keep_structure results of
             (Some e, r) \<Rightarrow> if e = JSONDecodeError then (None, r) else (Some e, r)
           | (None, r) \<Rightarrow> (None, r)))"
| "normalize_inner d PNone target_key keep_structure results = (None, results)"
| "normalize_inner d (PBool b) target_key keep_structure results = (None, results)"
| "normalize_inner d (PInt i) target_key keep_structure results = (None, results)"
| "normalize_inner d (PFloat x) target_key keep_structure results = (None, results)"
  by pat_completeness auto
termination
  by (relation "measure (\<lambda>(d, v, tk, ks, res). msize v)")
     (auto dest: msize_value msize_member json_loads_smaller simp: less_Suc_eq_le)

text \<open>A comprehension evaluates its elements in order and is left by the first exception.\<close>

fun sequence_results :: "(py_error + 'a) list \<Rightarrow> py_error + 'a list" where
  "sequence_results [] = Inr []"
| "sequence_results (r # rs) =
     (case r of
        Inl e \<Rightarrow> Inl e
      | Inr y \<Rightarrow> (case sequence_results rs of Inl e \<Rightarrow> Inl e | Inr ys \<Rightarrow> Inr (y # ys)))"

function deep_parse_json :: "json_decoder \<Rightarrow> pyval \<Rightarrow> py_error + pyval" where
  "deep_parse_json d (PStr s) =
     (case json_loads d s of
        Inl e \<Rightarrow> if e = JSONDecodeError then Inr (PStr s) else Inl e
      | Inr parsed_data \<Rightarrow>
          (case deep_parse_json d parsed_data of
             Inl e \<Rightarrow> if e = JSONDecodeError then Inr (PStr s) else Inl e
           | Inr y \<Rightarrow> Inr y))"
| "deep_parse_json d (PDict kvs) =
     (case sequence_results
             (map (\<lambda>(k, v). case deep_parse_json d v of Inl e \<Rightarrow> Inl e | Inr y \<Rightarrow> Inr (k, y)) kvs) of
        Inl e \<Rightarrow> Inl e
      | Inr kvs1 \<Rightarrow> Inr (PDict kvs1))"
| "deep_parse_json d (PList xs) =
     (case sequence_results (map (deep_parse_json d) xs) of
        Inl e \<Rightarrow> Inl e
      | Inr ys \<Rightarrow> Inr (PList ys))"
| "deep_parse_json d PNone = Inr PNone"
| "deep_parse_json d (PBool b) = Inr (PBool b)"
| "deep_parse_json d (PInt i) = Inr (PInt i)"
| "deep_parse_json d (PFloat x) = Inr (PFloat x)"
  by pat_completeness auto
termination
  by (relation "measure (\<lambda>(d, v). msize v)")
     (auto dest: msize_value msize_member json_loads_smaller simp: less_Suc_eq_le)

text \<open>
  The comprehension \<^verbatim>\<open>[deep_parse_json(r) for r in result]\<close> iterates over its argument:
  a list yields its elements, a dictionary its keys, a string its characters, and a scalar
  raises \<^verbatim>\<open>TypeError\<close>.
\<close>

fun py_iter :: "pyval \<Rightarrow> py_error + pyval list" where
  "py_iter (PList xs) = Inr xs"
| "py_iter (PDict kvs) = Inr (map (\<lambda>kv. PStr (fst kv)) kvs)"
| "py_iter (PStr s) = Inr (map (\<lambda>c. PStr [c]) s)"
| "py_iter _ = Inl TypeError"

text \<open>
  For a list, \<^verbatim>\<open>deep_parse_json(result[0])\<close> stands in a \<^verbatim>\<open>try\<close> whose handler names
  \<^verbatim>\<open>json.JSONDecodeError\<close> and falls through to \<^verbatim>\<open>deep_parse_json(result)\<close>;
  \<^verbatim>\<open>result[0]\<close> on an empty list raises \<^verbatim>\<open>IndexError\<close>, which that handler does not
  catch.
\<close>

definition process_result :: "json_decoder \<Rightarrow> pyval \<Rightarrow> bool \<Rightarrow> py_error + pyval" where
  "process_result d result multiple =
     (if multiple then
        (case py_iter result of
           Inl e \<Rightarrow> Inl e
         | Inr rs \<Rightarrow>
             (case sequence_results (map (deep_parse_json d) rs) of
                Inl e \<Rightarrow> Inl e
              | Inr ys \<Rightarrow> Inr (PList ys)))
      else
        (case result of
           PList xs \<Rightarrow>
             (case (case xs of
                      [] \<Rightarrow> Inl IndexError
                    | r0 # rest \<Rightarrow> deep_parse_json d r0) of
                Inl e \<Rightarrow> if e = JSONDecodeError then deep_parse_json d result else Inl e
              | Inr y \<Rightarrow> Inr y)
         | _ \<Rightarrow> deep_parse_json d result))"

definition normalize_response ::
  "json_decoder \<Rightarrow> pyval \<Rightarrow> string \<Rightarrow> bool \<Rightarrow> bool \<Rightarrow> py_error + pyval" where
  "normalize_response d response target_key onlyNormalize keep_structure =
     (if onlyNormalize then deep_parse_json d response
      else
        (case normalize_inner d response target_key keep_structure [] of
           (Some e, partial_results) \<Rightarrow> Inl e
         | (None, data) \<Rightarrow>
             (let multi = (if length data = 1 then False else True);
                  result = (if length data = 1 then data ! 0 else PList data)
              in process_result d result multi)))"

section \<open>The extraction order of the specification\<close>

text \<open>
  The matches of the specification, written from its words (component design, steps 1 to 4):
  a mapping that contains the target key records the value under it, then every value of
  the mapping is searched; the elements of a sequence are searched in order; a string that
  decodes is searched in its decoded form, and any other node holds no match. An occurrence
  of the target key is one recorded match.
\<close>

function dfs_matches :: "json_decoder \<Rightarrow> string \<Rightarrow> pyval \<Rightarrow> pyval list" where
  "dfs_matches d tk (PDict kvs) =
     (case map_of kvs tk of Some v \<Rightarrow> [v] | None \<Rightarrow> [])
       @ concat (map (\<lambda>(k, v). dfs_matches d tk v) kvs)"
| "dfs_matches d tk (PList xs) = concat (map (dfs_matches d tk) xs)"
| "dfs_matches d tk (PStr s) =
     (case json_loads d s of Inr v \<Rightarrow> dfs_matches d tk v | Inl e \<Rightarrow> [])"
| "dfs_matches d tk PNone = []"
| "dfs_matches d tk (PBool b) = []"
| "dfs_matches d tk (PInt i) = []"
| "dfs_matches d tk (PFloat x) = []"
  by pat_completeness auto
termination
  by (relation "measure (\<lambda>(d, tk, v). msize v)")
     (auto dest: msize_value msize_member json_loads_smaller simp: less_Suc_eq_le)

definition occurrences :: "json_decoder \<Rightarrow> string \<Rightarrow> pyval \<Rightarrow> nat" where
  "occurrences d tk v = length (dfs_matches d tk v)"

text \<open>What one match contributes to the result: the bare value, or in keep-structure mode
  the single-entry mapping around it.\<close>

definition recorded :: "bool \<Rightarrow> string \<Rightarrow> pyval \<Rightarrow> pyval" where
  "recorded keep_structure tk v = (if keep_structure then PDict [(tk, v)] else v)"

text \<open>
  A payload is quiet when every string in it, and in what its strings decode to, either
  decodes or raises \<^verbatim>\<open>json.JSONDecodeError\<close>: no other exception of the codec can come
  up while the payload is walked.
\<close>

function quiet :: "json_decoder \<Rightarrow> pyval \<Rightarrow> bool" where
  "quiet d (PDict kvs) = list_all (\<lambda>(k, v). quiet d v) kvs"
| "quiet d (PList xs) = list_all (quiet d) xs"
| "quiet d (PStr s) = (case json_loads d s of Inr v \<Rightarrow> quiet d v | Inl e \<Rightarrow> e = JSONDecodeError)"
| "quiet d PNone = True"
| "quiet d (PBool b) = True"
| "quiet d (PInt i) = True"
| "quiet d (PFloat x) = True"
  by pat_completeness auto
termination
  by (relation "measure (\<lambda>(d, v). msize v)")
     (auto dest: msize_value msize_member json_loads_smaller simp: less_Suc_eq_le)

text \<open>An exception of the codec that the handlers of the source let through.\<close>

definition codec_exception :: "json_decoder \<Rightarrow> py_error \<Rightarrow> bool" where
  "codec_exception d e \<longleftrightarrow> e \<noteq> JSONDecodeError \<and> (\<exists>s. json_loads d s = Inl e)"

section \<open>key_from_mapping\<close>

text \<open>
  Strings are lists of 8-bit characters, read as the code points below 256.
  \<^verbatim>\<open>str.strip()\<close> removes the characters for which \<^verbatim>\<open>str.isspace()\<close> holds from both
  ends; \<^verbatim>\<open>str.lower()\<close> maps \<^verbatim>\<open>A\<close> to \<^verbatim>\<open>Z\<close> and the upper-case letters of the range
  192 to 222 (215, the multiplication sign, is no letter) to the code point 32 above,
  which is the same code with bit 5 set.
\<close>

definition py_isspace :: "char \<Rightarrow> bool" where
  "py_isspace c = ((of_char c :: nat) \<in> {9, 10, 11, 12, 13, 28, 29, 30, 31, 32, 133, 160})"

definition py_lower_char :: "char \<Rightarrow> char" where
  "py_lower_char c =
     (let n = (of_char c :: nat)
      in if (65 \<le> n \<and> n \<le> 90) \<or> (192 \<le> n \<and> n \<le> 222 \<and> n \<noteq> 215)
         then (case c of Char b0 b1 b2 b3 b4 b5 b6 b7 \<Rightarrow> Char b0 b1 b2 b3 b4 True b6 b7)
         else c)"

definition py_lower :: "string \<Rightarrow> string" where
  "py_lower s = map py_lower_char s"

definition py_strip :: "string \<Rightarrow> string" where
  "py_strip s = rev (dropWhile py_isspace (rev (dropWhile py_isspace s)))"

text \<open>
  A value of the \<^verbatim>\<open>mappings\<close> dictionary is a string or a list of strings, as the
  docstring says; \<open>synonyms\<close> lists the display names it stands for.
\<close>

datatype mapping_value = Name string | Synonyms "string list"

fun synonyms :: "mapping_value \<Rightarrow> string list" where
  "synonyms (Name s) = [s]"
| "synonyms (Synonyms ss) = ss"

fun value_pyval :: "mapping_value \<Rightarrow> pyval" where
  "value_pyval (Name s) = PStr s"
| "value_pyval (Synonyms ss) = PList (map PStr ss)"

text \<open>
  The two auxiliary dictionaries are filled by assignment, entry after entry: assigning to
  a key already present replaces its value (\<open>AList.update\<close>).
\<close>

definition lower_case_mappings :: "(string \<times> mapping_value) list \<Rightarrow> (string \<times> string) list" where
  "lower_case_mappings mappings =
     fold (\<lambda>(key, value) m. AList.update (py_lower key) key m) mappings []"

definition inverse_mappings :: "(string \<times> mapping_value) list \<Rightarrow> (string \<times> string) list" where
  "inverse_mappings mappings =
     fold (\<lambda>(key, value) inv.
             (case value of
                Synonyms ss \<Rightarrow> fold (\<lambda>synonym m. AList.update (py_lower synonym) key m) ss inv
              | Name v \<Rightarrow> AList.update (py_lower v) key inv))
          mappings []"

definition key_from_mapping ::
  "string \<Rightarrow> (string \<times> mapping_value) list \<Rightarrow> bool \<Rightarrow> py_error + pyval" where
  "key_from_mapping input_str mappings invert =
     (let input_str1 = py_lower (py_strip input_str)
      in case map_of (lower_case_mappings mappings) input_str1 of
           Some key \<Rightarrow>
             if invert then
               (case map_of mappings key of
                  Some value \<Rightarrow> Inr (value_pyval value)
                | None \<Rightarrow> Inl KeyError)
             else Inr (PStr key)
         | None \<Rightarrow>
             (case map_of (inverse_mappings mappings) input_str1 of
                Some key \<Rightarrow> Inr (PStr key)
              | None \<Rightarrow> Inr PNone))"

section \<open>Request\<close>

text \<open>
  \<^verbatim>\<open>http_client\<close> is imported from the module \<^verbatim>\<open>_http/connection.py\<close>, which is not
  among the sources. The methods \<^verbatim>\<open>Request\<close> calls are parameters of the model: a record
  of operations on a connection state of any type \<open>'c\<close>. The two fetch methods may raise
  (\<open>Inl\<close>) and may change the connection state in any way.
\<close>

record 'c http_client =
  get_headers :: "'c \<Rightarrow> string \<Rightarrow> pyval"
  update_header :: "'c \<Rightarrow> string \<Rightarrow> pyval \<Rightarrow> 'c"
  update_base_url :: "'c \<Rightarrow> string \<Rightarrow> 'c"
  make_request ::
    "'c \<Rightarrow> (string \<times> string) list \<Rightarrow> bool \<Rightarrow> bool \<Rightarrow> bool \<Rightarrow> (py_error + pyval) \<times> 'c"
  make_requests_concurrently ::
    "'c \<Rightarrow> string list \<Rightarrow> (string \<times> string) list \<Rightarrow> bool \<Rightarrow> bool \<Rightarrow> (py_error + pyval) \<times> 'c"

text \<open>The argument \<^verbatim>\<open>url\<close> is a string or a list of strings.\<close>

datatype url_arg = Url string | Urls "string list"

text \<open>
  The header overrides in force: the caller's dictionary (empty for \<^verbatim>\<open>None\<close>), with
  \<^verbatim>\<open>Accept\<close> assigned when the format is \<^verbatim>\<open>json\<close>.
\<close>

definition effective_headers ::
  "(string \<times> pyval) list option \<Rightarrow> string \<Rightarrow> (string \<times> pyval) list" where
  "effective_headers headers_to_update response_format =
     (let hs = (case headers_to_update of None \<Rightarrow> [] | Some hs \<Rightarrow> hs)
      in if response_format = ''json''
         then AList.update ''Accept'' (PStr ''application/json'') hs
         else hs)"

text \<open>The loop that saves each header in \<^verbatim>\<open>original_headers\<close> and overrides it; it
  returns the saved dictionary and the connection state.\<close>

definition apply_headers ::
  "'c http_client \<Rightarrow> 'c \<Rightarrow> (string \<times> pyval) list \<Rightarrow> (string \<times> pyval) list \<times> 'c" where
  "apply_headers http c headers_to_update =
     (if headers_to_update \<noteq> [] then
        fold (\<lambda>(header, value) (original_headers, c1).
                (AList.update header (get_headers http c1 header) original_headers,
                 update_header http c1 header value))
             headers_to_update ([], c)
      else ([], c))"

text \<open>The fetch: concurrent for a list of more than one URL; otherwise a single request,
  after the base URL is set when \<^verbatim>\<open>url\<close> is a string.\<close>

definition fetch ::
  "'c http_client \<Rightarrow> 'c \<Rightarrow> url_arg \<Rightarrow> (string \<times> string) list \<Rightarrow> bool
    \<Rightarrow> (py_error + pyval) \<times> 'c" where
  "fetch http c url params return_url =
     (case url of
        Urls us \<Rightarrow>
          if length us > 1
          then make_requests_concurrently http c us params return_url False
          else make_request http c params False return_url True
      | Url u \<Rightarrow> make_request http (update_base_url http c u) params False return_url True)"

definition restore_headers :: "'c http_client \<Rightarrow> 'c \<Rightarrow> (string \<times> pyval) list \<Rightarrow> 'c" where
  "restore_headers http c original_headers =
     fold (\<lambda>(header, original_value) c1. update_header http c1 header original_value)
          original_headers c"

text \<open>
  \<^verbatim>\<open>Request\<close> returns its result together with the connection state it leaves behind.
  An exception of the fetch leaves the function before the headers are restored; the bare
  \<^verbatim>\<open>except\<close> around \<^verbatim>\<open>normalize_response\<close> turns every exception of the
  normalization into the raw response.
\<close>

definition Request ::
  "'c http_client \<Rightarrow> json_decoder \<Rightarrow> 'c \<Rightarrow> url_arg \<Rightarrow> (string \<times> pyval) list option \<Rightarrow> string
    \<Rightarrow> string \<Rightarrow> bool \<Rightarrow> bool \<Rightarrow> bool \<Rightarrow> (py_error + pyval) \<times> 'c" where
  "Request http d c url headers_to_update response_format target_response_key return_url
      onlyParse no_content =
     (let headers_in_force = effective_headers headers_to_update response_format;
          (original_headers, c1) = apply_headers http c headers_in_force;
          (fetched, c2) = fetch http c1 url [(''format'', response_format)] return_url
      in case fetched of
           Inl e \<Rightarrow> (Inl e, c2)
         | Inr response \<Rightarrow>
             (let c3 = restore_headers http c2 original_headers
              in case normalize_response d response target_response_key onlyParse no_content of
                   Inr v \<Rightarrow> (Inr v, c3)
                 | Inl e \<Rightarrow> (Inr response, c3)))"

text \<open>
  A connection client for concrete runs of \<open>Request\<close>: the headers are a table that
  \<open>get_headers\<close> reads (\<^verbatim>\<open>None\<close> for a header that is not set) and \<open>update_header\<close>
  writes, and every fetch gives the same fixed answer. It stands in for the client of
  \<^verbatim>\<open>_http/connection.py\<close> in the examples only; the theorems about \<open>Request\<close> hold
  for every client.
\<close>

record client_state =
  headers :: "(string \<times> pyval) list"
  base_url :: string

definition fixed_answer_client :: "py_error + pyval \<Rightarrow> client_state http_client" where
  "fixed_answer_client answer =
     \<lparr> get_headers = (\<lambda>c h. case map_of (headers c) h of Some v \<Rightarrow> v | None \<Rightarrow> PNone),
       update_header = (\<lambda>c h v. c\<lparr>headers := AList.update h v (headers c)\<rparr>),
       update_base_url = (\<lambda>c u. c\<lparr>base_url := u\<rparr>),
       make_request = (\<lambda>c params concurrent return_url delay_enabled. (answer, c)),
       make_requests_concurrently = (\<lambda>c urls params return_url delay_enabled. (answer, c)) \<rparr>"

section \<open>Properties of the normalizer\<close>

subsection \<open>Comprehensions\<close>





subsection \<open>deep_parse_json\<close>






subsection \<open>The walk\<close>

lemma fold_sticky:
  assumes "\<And>x e r. h x (Some e, r) = (Some e, r)"
  shows "fold h xs (Some e, r) = (Some e, r)"
  by (induction xs) (simp_all add: assms)

lemma fold_walk_None:
  assumes st: "\<And>x e r. h x (Some e, r) = (Some e, r)"
    and step: "\<And>x r r'. x \<in> set xs \<Longrightarrow> h x (None, r) = (None, r') \<Longrightarrow> r' = r @ g x"
    and "fold h xs (None, res) = (None, res')"
  shows "res' = res @ concat (map g xs)"
  using step assms(3)
proof (induction xs arbitrary: res)
  case Nil
  then show ?case by simp
next
  case (Cons a xs)
  obtain err r1 where a: "h a (None, res) = (err, r1)" by (cases "h a (None, res)")
  show ?case
  proof (cases err)
    case None
    with a Cons.prems(1) [of a res r1] have r1: "r1 = res @ g a" by simp
    from Cons.prems(2) a None have "fold h xs (None, r1) = (None, res')" by simp
    from Cons.IH [OF _ this] Cons.prems(1) have "res' = r1 @ concat (map g xs)" by simp
    with r1 show ?thesis by simp
  next
    case (Some e)
    with Cons.prems(2) a show ?thesis by (simp add: fold_sticky [of h, OF st])
  qed
qed

lemma fold_walk_Some:
  assumes st: "\<And>x e r. h x (Some e, r) = (Some e, r)"
    and step: "\<And>x r e r'. x \<in> set xs \<Longrightarrow> h x (None, r) = (Some e, r') \<Longrightarrow> Q e"
    and "fold h xs (None, res) = (Some e, res')"
  shows "Q e"
  using step assms(3)
proof (induction xs arbitrary: res)
  case Nil
  then show ?case by simp
next
  case (Cons a xs)
  obtain err r1 where a: "h a (None, res) = (err, r1)" by (cases "h a (None, res)")
  show ?case
  proof (cases err)
    case None
    from Cons.prems(2) a None have f: "fold h xs (None, r1) = (Some e, res')" by simp
    show ?thesis
    proof (rule Cons.IH [OF _ f])
      fix x r e r' assume "x \<in> set xs" and "h x (None, r) = (Some e, r')"
      then show "Q e" using Cons.prems(1) [of x r e r'] by simp
    qed
  next
    case (Some e1)
    with Cons.prems(2) a have "e1 = e" by (simp add: fold_sticky [of h, OF st])
    with Cons.prems(1) [of a res e r1] a Some show ?thesis by simp
  qed
qed

lemma fold_walk_quiet:
  assumes "\<And>x r. x \<in> set xs \<Longrightarrow> fst (h x (None, r)) = None"
  shows "fst (fold h xs (None, res)) = None"
  using assms
proof (induction xs arbitrary: res)
  case Nil
  show ?case by simp
next
  case (Cons a xs)
  from Cons.prems [of a res] obtain r1 where "h a (None, res) = (None, r1)"
    by (cases "h a (None, res)") auto
  with Cons.IH [of r1] Cons.prems show ?case by simp
qed

lemma normalize_inner_raises:
  "normalize_inner d v tk ks res = (Some e, x) \<Longrightarrow> codec_exception d e"
proof (induction d v tk ks res arbitrary: e x rule: normalize_inner.induct)
  case (1 d kvs tk ks res)
  let ?h = "\<lambda>(k, v) (err, r).
      case err of Some e \<Rightarrow> (Some e, r) | None \<Rightarrow> normalize_inner d v tk ks r"
  from "1.prems" obtain res1 where f: "fold ?h kvs (None, res1) = (Some e, x)"
    by (simp add: Let_def)
  show ?case
  proof (rule fold_walk_Some [where h = ?h and Q = "codec_exception d", OF _ _ f])
    show "\<And>kv e r. ?h kv (Some e, r) = (Some e, r)"
      by (simp add: case_prod_unfold)
  next
    fix kv r e1 r1 assume kv: "kv \<in> set kvs" and h: "?h kv (None, r) = (Some e1, r1)"
    then have "normalize_inner d (snd kv) tk ks r = (Some e1, r1)"
      by (simp add: case_prod_unfold)
    with kv show "codec_exception d e1"
      by (intro "1.IH" [OF refl kv _ refl, of "fst kv" "snd kv"]) auto
  qed
next
  case (2 d xs tk ks res)
  let ?h = "\<lambda>item (err, r).
      case err of Some e \<Rightarrow> (Some e, r) | None \<Rightarrow> normalize_inner d item tk ks r"
  from "2.prems" have f: "fold ?h xs (None, res) = (Some e, x)" by simp
  show ?case
  proof (rule fold_walk_Some [where h = ?h and Q = "codec_exception d", OF _ _ f])
    show "\<And>item e r. ?h item (Some e, r) = (Some e, r)" by simp
  next
    fix item r e1 r1 assume "item \<in> set xs" and "?h item (None, r) = (Some e1, r1)"
    then show "codec_exception d e1"
      by (intro "2.IH" [OF _ refl]) auto
  qed
next
  case (3 d s tk ks res)
  show ?case
  proof (cases "json_loads d s")
    case (Inl e1)
    with "3.prems" show ?thesis
      by (auto simp: codec_exception_def split: if_splits)
  next
    case (Inr p)
    obtain err r where n: "normalize_inner d p tk ks res = (err, r)"
      by (cases "normalize_inner d p tk ks res")
    show ?thesis
    proof (cases err)
      case None
      with "3.prems" Inr n show ?thesis by simp
    next
      case (Some e1)
      with n "3.IH" [OF Inr] have c: "codec_exception d e1" by simp
      then have "e1 \<noteq> JSONDecodeError" by (simp add: codec_exception_def)
      with "3.prems" Inr n Some have "e = e1" by simp
      with c show ?thesis by simp
    qed
  qed
qed simp_all

text \<open>The handler around the recursive call never fires: the equation of a string without it.\<close>

lemma normalize_inner_PStr:
  "normalize_inner d (PStr s) tk ks res =
     (case json_loads d s of
        Inl e \<Rightarrow> if e = JSONDecodeError then (None, res) else (Some e, res)
      | Inr v \<Rightarrow> normalize_inner d v tk ks res)"
proof (cases "json_loads d s")
  case (Inl e)
  then show ?thesis by simp
next
  case (Inr v)
  obtain err r where n: "normalize_inner d v tk ks res = (err, r)"
    by (cases "normalize_inner d v tk ks res")
  show ?thesis
  proof (cases err)
    case None
    with Inr n show ?thesis by simp
  next
    case (Some e)
    with n normalize_inner_raises [of d v tk ks res e r] have "e \<noteq> JSONDecodeError"
      by (simp add: codec_exception_def)
    with Inr n Some show ?thesis by simp
  qed
qed

lemma normalize_inner_dfs:
  "normalize_inner d v tk ks res = (None, x)
     \<Longrightarrow> x = res @ map (recorded ks tk) (dfs_matches d tk v)"
proof (induction d v tk ks res arbitrary: x rule: normalize_inner.induct)
  case (1 d kvs tk ks res)
  let ?h = "\<lambda>(k, v) (err, r).
      case err of Some e \<Rightarrow> (Some e, r) | None \<Rightarrow> normalize_inner d v tk ks r"
  let ?g = "\<lambda>kv. map (recorded ks tk) (dfs_matches d tk (snd kv))"
  define res1 where "res1 =
    (case map_of kvs tk of
       Some v \<Rightarrow> if ks then res @ [PDict [(tk, v)]] else res @ [v]
     | None \<Rightarrow> res)"
  from "1.prems" have f: "fold ?h kvs (None, res1) = (None, x)"
    by (simp add: Let_def res1_def)
  have "x = res1 @ concat (map ?g kvs)"
  proof (rule fold_walk_None [where h = ?h, OF _ _ f])
    show "\<And>kv e r. ?h kv (Some e, r) = (Some e, r)"
      by (simp add: case_prod_unfold)
  next
    fix kv r r1 assume kv: "kv \<in> set kvs" and h: "?h kv (None, r) = (None, r1)"
    then have "normalize_inner d (snd kv) tk ks r = (None, r1)"
      by (simp add: case_prod_unfold)
    with kv show "r1 = r @ ?g kv"
      by (intro "1.IH" [OF refl kv _ refl, of "fst kv" "snd kv"]) auto
  qed
  moreover have "res1 = res @ map (recorded ks tk) (case map_of kvs tk of Some v \<Rightarrow> [v] | None \<Rightarrow> [])"
    by (simp add: res1_def recorded_def split: option.splits)
  ultimately show ?case
    by (simp add: map_concat comp_def case_prod_unfold)
next
  case (2 d xs tk ks res)
  let ?h = "\<lambda>item (err, r).
      case err of Some e \<Rightarrow> (Some e, r) | None \<Rightarrow> normalize_inner d item tk ks r"
  from "2.prems" have f: "fold ?h xs (None, res) = (None, x)" by simp
  have "x = res @ concat (map (\<lambda>item. map (recorded ks tk) (dfs_matches d tk item)) xs)"
  proof (rule fold_walk_None [where h = ?h, OF _ _ f])
    show "\<And>item e r. ?h item (Some e, r) = (Some e, r)" by simp
  next
    fix item r r1 assume "item \<in> set xs" and "?h item (None, r) = (None, r1)"
    then show "r1 = r @ map (recorded ks tk) (dfs_matches d tk item)"
      by (intro "2.IH" [OF _ refl]) auto
  qed
  then show ?case by (simp add: map_concat comp_def)
next
  case (3 d s tk ks res)
  show ?case
  proof (cases "json_loads d s")
    case (Inl e)
    with "3.prems" show ?thesis by (auto split: if_splits)
  next
    case (Inr p)
    with "3.prems" have "normalize_inner d p tk ks res = (None, x)"
      by (simp add: normalize_inner_PStr del: normalize_inner.simps)
    from "3.IH" [OF Inr this] Inr show ?thesis by simp
  qed
qed simp_all

lemma normalize_inner_quiet:
  "quiet d v \<Longrightarrow> fst (normalize_inner d v tk ks res) = None"
proof (induction d v tk ks res rule: normalize_inner.induct)
  case (1 d kvs tk ks res)
  let ?h = "\<lambda>(k, v) (err, r).
      case err of Some e \<Rightarrow> (Some e, r) | None \<Rightarrow> normalize_inner d v tk ks r"
  have "\<And>res1. fst (fold ?h kvs (None, res1)) = None"
  proof (rule fold_walk_quiet)
    fix res1 :: "pyval list" and kv r assume kv: "kv \<in> set kvs"
    with "1.prems" have "quiet d (snd kv)" by (auto simp: list_all_iff)
    with kv have "fst (normalize_inner d (snd kv) tk ks r) = None"
      by (intro "1.IH" [OF refl kv _ refl, of "fst kv" "snd kv"]) auto
    then show "fst (?h kv (None, r)) = None" by (simp add: case_prod_unfold)
  qed
  then show ?case by (simp add: Let_def)
next
  case (2 d xs tk ks res)
  let ?h = "\<lambda>item (err, r).
      case err of Some e \<Rightarrow> (Some e, r) | None \<Rightarrow> normalize_inner d item tk ks r"
  have "fst (fold ?h xs (None, res)) = None"
  proof (rule fold_walk_quiet)
    fix item r assume "item \<in> set xs"
    with "2.prems" "2.IH" [OF this refl, of r] show "fst (?h item (None, r)) = None"
      by (simp add: list_all_iff)
  qed
  then show ?case by simp
next
  case (3 d s tk ks res)
  then show ?case
    by (cases "json_loads d s") (auto simp: normalize_inner_PStr simp del: normalize_inner.simps)
qed simp_all




subsection \<open>normalize_response\<close>

lemma json_loads_table:
  "json_loads (table_decoder tbl) s =
     (case map_of tbl s of
        Some (Inr v) \<Rightarrow> if msize v \<le> length s then Inr v else Inl JSONDecodeError
      | Some (Inl e) \<Rightarrow> Inl e
      | None \<Rightarrow> Inl JSONDecodeError)"
  by (simp add: json_loads.rep_eq table_decoder.rep_eq)


lemma normalize_inner_returns:
  "quiet d r \<Longrightarrow>
     normalize_inner d r tk ks [] = (None, map (recorded ks tk) (dfs_matches d tk r))"
proof -
  assume q: "quiet d r"
  obtain err x where n: "normalize_inner d r tk ks [] = (err, x)"
    by (cases "normalize_inner d r tk ks []")
  with normalize_inner_quiet [OF q, of tk ks "[]"] have "err = None" by simp
  with n normalize_inner_dfs [of d r tk ks "[]" x] show ?thesis by simp
qed

lemma normalize_response_extract:
  "quiet d r \<Longrightarrow>
   normalize_response d r tk False ks =
     (case map (recorded ks tk) (dfs_matches d tk r) of
        [m] \<Rightarrow> process_result d m False
      | ms \<Rightarrow> process_result d (PList ms) True)"
proof (cases "dfs_matches d tk r")
  case Nil
  assume "quiet d r"
  with Nil show ?thesis by (simp add: normalize_response_def normalize_inner_returns)
next
  case (Cons v vs)
  assume "quiet d r"
  with Cons show ?thesis
    by (cases vs) (simp_all add: normalize_response_def normalize_inner_returns)
qed




subsection \<open>The claims about the normalizer\<close>











text \<open>
  C6: \<open>normalize_response\<close> is not total. Whenever the target key occurs exactly once (in
  a quiet payload) and the matched value is the empty list, \<open>process_result\<close> indexes the
  first element of that list and the \<^verbatim>\<open>IndexError\<close> leaves \<open>normalize_response\<close>; the
  payload \<^verbatim>\<open>{target_key: []}\<close> is such an input, whatever the codec.
\<close>

theorem normalize_response_index_error:
  "(quiet d r \<and> dfs_matches d tk r = [PList []] \<longrightarrow>
      normalize_response d r tk False False = Inl IndexError)
   \<and> occurrences d tk (PDict [(tk, PList [])]) = 1
   \<and> normalize_response d (PDict [(tk, PList [])]) tk False False = Inl IndexError"
proof (intro conjI impI)
  assume "quiet d r \<and> dfs_matches d tk r = [PList []]"
  then show "normalize_response d r tk False False = Inl IndexError"
    by (simp add: normalize_response_extract recorded_def process_result_def)
next
  show "occurrences d tk (PDict [(tk, PList [])]) = 1"
    by (simp add: occurrences_def)
next
  have "quiet d (PDict [(tk, PList [])])" by simp
  then show "normalize_response d (PDict [(tk, PList [])]) tk False False = Inl IndexError"
    by (simp add: normalize_response_extract recorded_def process_result_def)
qed

theorem normalize_response_index_error_witness:
  "quiet (table_decoder [(''[]'', Inr (PList []))])
       (PList [PInt 0, PDict [(''response'', PList [])]])
   \<and> dfs_matches (table_decoder [(''[]'', Inr (PList []))]) ''response''
       (PList [PInt 0, PDict [(''response'', PList [])]]) = [PList []]
   \<and> normalize_response (table_decoder [(''[]'', Inr (PList []))])
       (PList [PInt 0, PDict [(''response'', PList [])]]) ''response'' False False
     = Inl IndexError"
proof -
  have q: "quiet (table_decoder [(''[]'', Inr (PList []))])
             (PList [PInt 0, PDict [(''response'', PList [])]])"
    by simp
  have m: "dfs_matches (table_decoder [(''[]'', Inr (PList []))]) ''response''
             (PList [PInt 0, PDict [(''response'', PList [])]]) = [PList []]"
    by simp
  from normalize_response_index_error
    [of "table_decoder [(''[]'', Inr (PList []))]"
        "PList [PInt 0, PDict [(''response'', PList [])]]" "''response''"] q m
  show ?thesis by (simp only: simp_thms)
qed




section \<open>Properties of the mapping resolver\<close>

lemma find_append:
  "find P (xs @ ys) = (case find P xs of Some x \<Rightarrow> Some x | None \<Rightarrow> find P ys)"
  by (induction xs) auto

text \<open>A dictionary filled by a loop of assignments holds, under a key, what the last
  iteration that assigned to it wrote.\<close>

lemma map_of_fold_last:
  assumes "\<And>a acc. map_of (f a acc) x = (if P a then Some (g a) else map_of acc x)"
  shows "map_of (fold f ms acc) x
           = (case find P (rev ms) of Some a \<Rightarrow> Some (g a) | None \<Rightarrow> map_of acc x)"
proof (induction ms arbitrary: acc)
  case Nil
  show ?case by simp
next
  case (Cons a ms)
  show ?case
    by (simp add: Cons.IH assms find_append split: option.splits)
qed

lemma lower_case_mappings_lookup:
  "map_of (lower_case_mappings ms) x
     = map_option fst (find (\<lambda>kv. py_lower (fst kv) = x) (rev ms))"
proof -
  have "map_of (fold (\<lambda>(key, value) m. AList.update (py_lower key) key m) ms []) x
          = (case find (\<lambda>kv. py_lower (fst kv) = x) (rev ms) of
               Some a \<Rightarrow> Some (fst a) | None \<Rightarrow> map_of [] x)"
    by (rule map_of_fold_last) (auto simp: update_conv')
  then show ?thesis
    by (simp add: lower_case_mappings_def split: option.splits)
qed

lemma synonyms_fold_lookup:
  "map_of (fold (\<lambda>synonym m. AList.update (py_lower synonym) key m) ss acc) x
     = (if x \<in> set (map py_lower ss) then Some key else map_of acc x)"
  by (induction ss arbitrary: acc) (auto simp: update_conv')

lemma inverse_mappings_lookup:
  "map_of (inverse_mappings ms) x
     = map_option fst (find (\<lambda>kv. x \<in> set (map py_lower (synonyms (snd kv)))) (rev ms))"
proof -
  have "map_of (fold (\<lambda>(key, value) inv.
             (case value of
                Synonyms ss \<Rightarrow> fold (\<lambda>synonym m. AList.update (py_lower synonym) key m) ss inv
              | Name v \<Rightarrow> AList.update (py_lower v) key inv)) ms []) x
          = (case find (\<lambda>kv. x \<in> set (map py_lower (synonyms (snd kv)))) (rev ms) of
               Some a \<Rightarrow> Some (fst a) | None \<Rightarrow> map_of [] x)"
    by (rule map_of_fold_last)
       (auto simp: update_conv' synonyms_fold_lookup split: mapping_value.splits)
  then show ?thesis
    by (simp add: inverse_mappings_def split: option.splits)
qed


lemma key_from_mapping_eq:
  "key_from_mapping input ms invert =
     (case find (\<lambda>kv. py_lower (fst kv) = py_lower (py_strip input)) (rev ms) of
        Some kv \<Rightarrow>
          if invert then
            (case map_of ms (fst kv) of
               Some v \<Rightarrow> Inr (value_pyval v)
             | None \<Rightarrow> Inl KeyError)
          else Inr (PStr (fst kv))
      | None \<Rightarrow>
          (case find (\<lambda>kv. py_lower (py_strip input) \<in> set (map py_lower (synonyms (snd kv))))
                  (rev ms) of
             Some kv \<Rightarrow> Inr (PStr (fst kv))
           | None \<Rightarrow> Inr PNone))"
  by (simp add: key_from_mapping_def lower_case_mappings_lookup inverse_mappings_lookup
           split: option.splits)

lemma find_SomeD: "find P xs = Some a \<Longrightarrow> a \<in> set xs \<and> P a"
  by (auto simp: find_Some_iff)

lemma find_rev_None: "find P (rev xs) = None \<longleftrightarrow> (\<forall>a \<in> set xs. \<not> P a)"
  by (auto simp: find_None_iff)

text \<open>
  C9: with \<open>x\<close> the input trimmed and lower-cased, \<open>key_from_mapping\<close> first compares
  \<open>x\<close> with the lower-cased canonical keys and on a match returns the key, or the value
  mapped to it when \<open>invert\<close> is set; otherwise it compares \<open>x\<close> with the lower-cased
  display names and synonyms and returns the canonical key of a match; when neither
  matches it returns \<^verbatim>\<open>None\<close>.
\<close>

theorem key_from_mapping_matching_order:
  assumes "x = py_lower (py_strip input)"
  shows "((\<exists>kv \<in> set ms. py_lower (fst kv) = x) \<longrightarrow>
            (\<exists>k v. (k, v) \<in> set ms \<and> py_lower k = x \<and>
               key_from_mapping input ms invert
                 = (if invert then Inr (value_pyval v) else Inr (PStr k))))
       \<and> ((\<forall>kv \<in> set ms. py_lower (fst kv) \<noteq> x) \<and>
          (\<exists>kv \<in> set ms. x \<in> set (map py_lower (synonyms (snd kv)))) \<longrightarrow>
            (\<exists>k v. (k, v) \<in> set ms \<and> x \<in> set (map py_lower (synonyms v)) \<and>
               key_from_mapping input ms invert = Inr (PStr k)))
       \<and> ((\<forall>kv \<in> set ms. py_lower (fst kv) \<noteq> x) \<and>
          (\<forall>kv \<in> set ms. x \<notin> set (map py_lower (synonyms (snd kv)))) \<longrightarrow>
            key_from_mapping input ms invert = Inr PNone)"
proof (intro conjI impI)
  assume "\<exists>kv \<in> set ms. py_lower (fst kv) = x"
  then obtain kv where f: "find (\<lambda>kv. py_lower (fst kv) = x) (rev ms) = Some kv"
    using find_rev_None [of "\<lambda>kv. py_lower (fst kv) = x" ms] by (cases "find (\<lambda>kv. py_lower (fst kv) = x) (rev ms)") auto
  from find_SomeD [OF f] have kv: "kv \<in> set ms" "py_lower (fst kv) = x" by auto
  from kv(1) have "fst kv \<in> fst ` set ms" by (rule imageI)
  then obtain v where v: "map_of ms (fst kv) = Some v"
    by (cases "map_of ms (fst kv)") (auto simp: map_of_eq_None_iff)
  then have "(fst kv, v) \<in> set ms" by (rule map_of_SomeD)
  moreover have "key_from_mapping input ms invert
      = (if invert then Inr (value_pyval v) else Inr (PStr (fst kv)))"
    using f v assms by (simp add: key_from_mapping_eq)
  ultimately show "\<exists>k v. (k, v) \<in> set ms \<and> py_lower k = x \<and>
      key_from_mapping input ms invert = (if invert then Inr (value_pyval v) else Inr (PStr k))"
    using kv(2) by blast
next
  assume a: "(\<forall>kv \<in> set ms. py_lower (fst kv) \<noteq> x) \<and>
             (\<exists>kv \<in> set ms. x \<in> set (map py_lower (synonyms (snd kv))))"
  then have n: "find (\<lambda>kv. py_lower (fst kv) = x) (rev ms) = None"
    by (simp add: find_rev_None)
  from a obtain kv where
    f: "find (\<lambda>kv. x \<in> set (map py_lower (synonyms (snd kv)))) (rev ms) = Some kv"
    using find_rev_None [of "\<lambda>kv. x \<in> set (map py_lower (synonyms (snd kv)))" ms]
    by (cases "find (\<lambda>kv. x \<in> set (map py_lower (synonyms (snd kv)))) (rev ms)") auto
  from find_SomeD [OF f]
  have kv: "(fst kv, snd kv) \<in> set ms" "x \<in> set (map py_lower (synonyms (snd kv)))"
    by auto
  moreover have "key_from_mapping input ms invert = Inr (PStr (fst kv))"
    using n f assms by (simp add: key_from_mapping_eq)
  ultimately show "\<exists>k v. (k, v) \<in> set ms \<and> x \<in> set (map py_lower (synonyms v)) \<and>
      key_from_mapping input ms invert = Inr (PStr k)"
    by blast
next
  assume a: "(\<forall>kv \<in> set ms. py_lower (fst kv) \<noteq> x) \<and>
             (\<forall>kv \<in> set ms. x \<notin> set (map py_lower (synonyms (snd kv))))"
  then have "find (\<lambda>kv. py_lower (fst kv) = x) (rev ms) = None"
    and "find (\<lambda>kv. x \<in> set (map py_lower (synonyms (snd kv)))) (rev ms) = None"
    by (simp_all add: find_rev_None)
  then show "key_from_mapping input ms invert = Inr PNone"
    using assms by (simp add: key_from_mapping_eq)
qed


lemmas string_eval = py_lower_def py_lower_char_def py_strip_def py_isspace_def

lemmas key_from_mapping_eval =
  key_from_mapping_def lower_case_mappings_def inverse_mappings_def string_eval

theorem key_from_mapping_matching_order_witness:
  "py_lower (py_strip '' usd '') = ''usd''
   \<and> (\<exists>kv \<in> set [(''USD'', Synonyms [''US Dollar'', ''Dollar'']), (''BTC'', Name ''Bitcoin'')].
         py_lower (fst kv) = ''usd'')
   \<and> key_from_mapping '' usd '' [(''USD'', Synonyms [''US Dollar'', ''Dollar'']), (''BTC'', Name ''Bitcoin'')]
         True = Inr (PList [PStr ''US Dollar'', PStr ''Dollar''])
   \<and> key_from_mapping '' usd '' [(''USD'', Synonyms [''US Dollar'', ''Dollar'']), (''BTC'', Name ''Bitcoin'')]
         False = Inr (PStr ''USD'')
   \<and> key_from_mapping ''BITCOIN'' [(''USD'', Synonyms [''US Dollar'', ''Dollar'']), (''BTC'', Name ''Bitcoin'')]
         True = Inr (PStr ''BTC'')
   \<and> key_from_mapping ''euro'' [(''USD'', Synonyms [''US Dollar'', ''Dollar'']), (''BTC'', Name ''Bitcoin'')]
         False = Inr PNone"
proof -
  let ?ms = "[(''USD'', Synonyms [''US Dollar'', ''Dollar'']), (''BTC'', Name ''Bitcoin'')]"
  have x: "''usd'' = py_lower (py_strip '' usd '')"
    by (simp add: string_eval)
  have k: "\<exists>kv \<in> set ?ms. py_lower (fst kv) = ''usd''"
    by (simp add: string_eval)
  have r: "key_from_mapping '' usd '' ?ms True = Inr (PList [PStr ''US Dollar'', PStr ''Dollar''])"
    by (simp add: key_from_mapping_eval)
  have rest: "key_from_mapping '' usd '' ?ms False = Inr (PStr ''USD'')
      \<and> key_from_mapping ''BITCOIN'' ?ms True = Inr (PStr ''BTC'')
      \<and> key_from_mapping ''euro'' ?ms False = Inr PNone"
    by (simp add: key_from_mapping_eval)
  note key_from_mapping_matching_order [OF x, of ?ms True, THEN conjunct1, rule_format, OF k]
  then have "\<exists>k v. key_from_mapping '' usd '' ?ms True = Inr (value_pyval v)"
    by (simp only: if_True) blast
  with x [symmetric] k r rest show ?thesis
    by (simp only: simp_thms)
qed

text \<open>
  C8, as amended: when the same synonym is listed under two different canonical keys and
  equals no canonical key, \<open>key_from_mapping\<close> resolves it to the later of the two in
  the order of the mapping: the last key whose synonyms contain it, since each assignment
  to \<^verbatim>\<open>inverse_mappings\<close> replaces the key stored before.
\<close>

theorem key_from_mapping_duplicate_synonym:
  assumes "ms = pre @ (k2, v2) # post"
    and "(k1, v1) \<in> set pre" and "k1 \<noteq> k2"
    and "x \<in> set (map py_lower (synonyms v1))"
    and "x \<in> set (map py_lower (synonyms v2))"
    and "\<forall>kv \<in> set post. x \<notin> set (map py_lower (synonyms (snd kv)))"
    and "\<forall>kv \<in> set ms. py_lower (fst kv) \<noteq> x"
    and "py_lower (py_strip input) = x"
  shows "key_from_mapping input ms invert = Inr (PStr k2)"
proof -
  have "find (\<lambda>kv. py_lower (fst kv) = x) (rev ms) = None"
    using assms(7) by (simp add: find_rev_None)
  moreover have "find (\<lambda>kv. x \<in> set (map py_lower (synonyms (snd kv)))) (rev post) = None"
    using assms(6) by (simp add: find_rev_None)
  then have "find (\<lambda>kv. x \<in> set (map py_lower (synonyms (snd kv)))) (rev ms) = Some (k2, v2)"
    using assms(1,5) by (simp add: find_append)
  ultimately show ?thesis
    using assms(8) by (simp add: key_from_mapping_eq)
qed

theorem key_from_mapping_duplicate_synonym_witness:
  "key_from_mapping '' DOLLAR ''
     [(''USD'', Synonyms [''US Dollar'', ''Dollar'']), (''BTC'', Name ''Bitcoin''),
      (''AUD'', Synonyms [''dollar'', ''Australian Dollar'']), (''EUR'', Name ''Euro'')]
     False = Inr (PStr ''AUD'')"
proof -
  let ?ms = "[(''USD'', Synonyms [''US Dollar'', ''Dollar'']), (''BTC'', Name ''Bitcoin''),
      (''AUD'', Synonyms [''dollar'', ''Australian Dollar'']), (''EUR'', Name ''Euro'')]"
  show ?thesis
  proof (rule key_from_mapping_duplicate_synonym
      [where pre = "[(''USD'', Synonyms [''US Dollar'', ''Dollar'']), (''BTC'', Name ''Bitcoin'')]"
         and post = "[(''EUR'', Name ''Euro'')]" and ?k1.0 = "''USD''"
         and ?v1.0 = "Synonyms [''US Dollar'', ''Dollar'']"
         and ?v2.0 = "Synonyms [''dollar'', ''Australian Dollar'']" and x = "''dollar''"])
    show "?ms = [(''USD'', Synonyms [''US Dollar'', ''Dollar'']), (''BTC'', Name ''Bitcoin'')]
            @ (''AUD'', Synonyms [''dollar'', ''Australian Dollar'']) # [(''EUR'', Name ''Euro'')]"
      by simp
  qed (simp_all add: string_eval)
qed

text \<open>
  C8, as stated, fails: \<^verbatim>\<open>Dollar\<close> is a synonym of \<^verbatim>\<open>USD\<close> and, further down the
  mapping, of \<^verbatim>\<open>AUD\<close>; the lookup answers the later key \<^verbatim>\<open>AUD\<close>, not the earlier one.
\<close>

theorem key_from_mapping_duplicate_synonym_counterexample:
  "key_from_mapping ''Dollar''
     [(''USD'', Synonyms [''US Dollar'', ''Dollar'']), (''AUD'', Synonyms [''Australian Dollar'', ''Dollar''])]
     False = Inr (PStr ''AUD'')
   \<and> key_from_mapping ''Dollar''
     [(''USD'', Synonyms [''US Dollar'', ''Dollar'']), (''AUD'', Synonyms [''Australian Dollar'', ''Dollar''])]
     False \<noteq> Inr (PStr ''USD'')"
  by (simp add: key_from_mapping_eval)


section \<open>Properties of the dispatcher\<close>

lemma Request_unfold:
  assumes "apply_headers http c (effective_headers hs fmt) = (orig, c1)"
    and "fetch http c1 url [(''format'', fmt)] ru = (fetched, c2)"
  shows "Request http d c url hs fmt tk ru only nc =
     (case fetched of
        Inl e \<Rightarrow> (Inl e, c2)
      | Inr response \<Rightarrow>
          (case normalize_response d response tk only nc of
             Inr v \<Rightarrow> (Inr v, restore_headers http c2 orig)
           | Inl e \<Rightarrow> (Inr response, restore_headers http c2 orig)))"
  using assms by (simp add: Request_def Let_def split: sum.splits)

text \<open>
  C4: whenever the normalization of the fetched payload raises, whatever the exception,
  \<open>Request\<close> returns the raw payload; the exception does not reach the caller.
\<close>

theorem Request_normalization_fallback:
  assumes "fetch http (snd (apply_headers http c (effective_headers hs fmt))) url
             [(''format'', fmt)] ru = (Inr response, c2)"
    and "normalize_response d response tk only nc = Inl e"
  shows "fst (Request http d c url hs fmt tk ru only nc) = Inr response"
proof -
  obtain orig c1 where a: "apply_headers http c (effective_headers hs fmt) = (orig, c1)"
    by (cases "apply_headers http c (effective_headers hs fmt)")
  with assms(1) have "fetch http c1 url [(''format'', fmt)] ru = (Inr response, c2)"
    by simp
  from Request_unfold [OF a this] assms(2) show ?thesis by simp
qed

lemmas client_eval =
  fixed_answer_client_def fetch_def apply_headers_def effective_headers_def restore_headers_def

theorem Request_normalization_fallback_witness:
  "normalize_response (table_decoder []) (PDict [(''response'', PList [])]) ''response'' False False
     = Inl IndexError
   \<and> fst (Request (fixed_answer_client (Inr (PDict [(''response'', PList [])]))) (table_decoder [])
            \<lparr>headers = [(''Accept'', PStr ''text/html'')], base_url = []\<rparr>
            (Url ''https://example.org/rates'') None ''html'' ''response'' True False False)
     = Inr (PDict [(''response'', PList [])])"
proof -
  have n: "normalize_response (table_decoder []) (PDict [(''response'', PList [])]) ''response''
             False False = Inl IndexError"
    by (simp add: normalize_response_def process_result_def)
  have f: "fetch (fixed_answer_client (Inr (PDict [(''response'', PList [])])))
             (snd (apply_headers (fixed_answer_client (Inr (PDict [(''response'', PList [])])))
                     \<lparr>headers = [(''Accept'', PStr ''text/html'')], base_url = []\<rparr>
                     (effective_headers None ''html'')))
             (Url ''https://example.org/rates'') [(''format'', ''html'')] True
           = (Inr (PDict [(''response'', PList [])]),
              \<lparr>headers = [(''Accept'', PStr ''text/html'')],
               base_url = ''https://example.org/rates''\<rparr>)"
    by (simp add: client_eval)
  from Request_normalization_fallback [OF f n] n show ?thesis by simp
qed

text \<open>What the save loop records and what the restore loop writes back, for a connection
  whose headers behave as independent cells.\<close>

lemma apply_headers_fold:
  assumes indep: "\<And>c h h' v. h \<noteq> h' \<Longrightarrow>
      get_headers http (update_header http c h' v) h = get_headers http c h"
    and "distinct (map fst hs)"
    and "fold (\<lambda>(header, value) (original_headers, c1).
                (AList.update header (get_headers http c1 header) original_headers,
                 update_header http c1 header value)) hs (orig, c) = (orig', c')"
  shows "map_of orig' h
           = (if h \<in> fst ` set hs then Some (get_headers http c h) else map_of orig h)
       \<and> (distinct (map fst orig) \<longrightarrow> distinct (map fst orig'))"
  using assms(2,3)
proof (induction hs arbitrary: orig c)
  case Nil
  then show ?case by simp
next
  case (Cons a hs)
  obtain h0 v0 where a: "a = (h0, v0)" by (cases a)
  let ?orig1 = "AList.update h0 (get_headers http c h0) orig"
  let ?c1 = "update_header http c h0 v0"
  from Cons.prems a have d: "distinct (map fst hs)" and n: "h0 \<notin> fst ` set hs"
    and f: "fold (\<lambda>(header, value) (original_headers, c1).
                (AList.update header (get_headers http c1 header) original_headers,
                 update_header http c1 header value)) hs (?orig1, ?c1) = (orig', c')"
    by auto
  from Cons.IH [OF d f]
  have ih: "map_of orig' h
              = (if h \<in> fst ` set hs then Some (get_headers http ?c1 h) else map_of ?orig1 h)"
    and dist: "distinct (map fst ?orig1) \<longrightarrow> distinct (map fst orig')"
    by auto
  have "h \<in> fst ` set hs \<Longrightarrow> get_headers http ?c1 h = get_headers http c h"
    using n by (intro indep) auto
  with ih a have "map_of orig' h
      = (if h \<in> fst ` set (a # hs) then Some (get_headers http c h) else map_of orig h)"
    by (auto simp: update_conv')
  moreover have "distinct (map fst orig) \<longrightarrow> distinct (map fst orig')"
    using dist by (simp add: distinct_update)
  ultimately show ?case by simp
qed

lemma apply_headers_saved:
  assumes "\<And>c h h' v. h \<noteq> h' \<Longrightarrow>
      get_headers http (update_header http c h' v) h = get_headers http c h"
    and "distinct (map fst hs)"
    and "apply_headers http c hs = (orig, c1)"
  shows "map_of orig h = (if h \<in> fst ` set hs then Some (get_headers http c h) else None)"
    and "distinct (map fst orig)"
proof -
  show "map_of orig h = (if h \<in> fst ` set hs then Some (get_headers http c h) else None)"
  proof (cases "hs = []")
    case True
    with assms(3) show ?thesis by (simp add: apply_headers_def)
  next
    case False
    with assms(3) apply_headers_fold [OF assms(1,2), of "[]" c orig c1 h] show ?thesis
      by (simp add: apply_headers_def)
  qed
  show "distinct (map fst orig)"
  proof (cases "hs = []")
    case True
    with assms(3) show ?thesis by (simp add: apply_headers_def)
  next
    case False
    with assms(3) apply_headers_fold [OF assms(1,2), of "[]" c orig c1 h] show ?thesis
      by (simp add: apply_headers_def)
  qed
qed

lemma restore_headers_get:
  assumes same: "\<And>c h v. get_headers http (update_header http c h v) h = v"
    and indep: "\<And>c h h' v. h \<noteq> h' \<Longrightarrow>
      get_headers http (update_header http c h' v) h = get_headers http c h"
    and "distinct (map fst orig)"
  shows "get_headers http (restore_headers http c orig) h
           = (case map_of orig h of Some v \<Rightarrow> v | None \<Rightarrow> get_headers http c h)"
  using assms(3)
proof (induction orig arbitrary: c)
  case Nil
  then show ?case by (simp add: restore_headers_def)
next
  case (Cons a orig)
  obtain h0 v0 where a: "a = (h0, v0)" by (cases a)
  from Cons.prems a have d: "distinct (map fst orig)" and n: "map_of orig h0 = None"
    by (auto simp: map_of_eq_None_iff)
  have "restore_headers http c (a # orig) = restore_headers http (update_header http c h0 v0) orig"
    by (simp add: restore_headers_def a)
  with Cons.IH [OF d, of "update_header http c h0 v0"] n a show ?case
    by (cases "h = h0") (simp_all add: same indep split: option.splits)
qed

lemma effective_headers_distinct:
  "distinct (map fst (case hs of None \<Rightarrow> [] | Some l \<Rightarrow> l))
     \<Longrightarrow> distinct (map fst (effective_headers hs fmt))"
  by (cases hs) (simp_all add: effective_headers_def Let_def distinct_update)

text \<open>
  C5: take a connection client whose headers behave as independent cells (\<open>get_headers\<close>
  after \<open>update_header\<close> of the same header gives the value written, and leaves every
  other header as it was). For every call of \<open>Request\<close> that returns, every overridden
  header, \<^verbatim>\<open>Accept\<close> under the \<^verbatim>\<open>json\<close> format included, has its pre-call value on the
  connection afterwards, and the value saved for it in \<^verbatim>\<open>original_headers\<close> is the
  pre-call value, read before any override was written.
\<close>

theorem Request_restores_headers:
  assumes same: "\<And>c h v. get_headers http (update_header http c h v) h = v"
    and indep: "\<And>c h h' v. h \<noteq> h' \<Longrightarrow>
      get_headers http (update_header http c h' v) h = get_headers http c h"
    and dict: "distinct (map fst (case hs of None \<Rightarrow> [] | Some l \<Rightarrow> l))"
    and ret: "Request http d c url hs fmt tk ru only nc = (Inr result, c')"
    and h: "h \<in> fst ` set (effective_headers hs fmt)"
  shows "get_headers http c' h = get_headers http c h
       \<and> map_of (fst (apply_headers http c (effective_headers hs fmt))) h
           = Some (get_headers http c h)"
proof -
  obtain orig c1 where a: "apply_headers http c (effective_headers hs fmt) = (orig, c1)"
    by (cases "apply_headers http c (effective_headers hs fmt)")
  obtain fetched c2 where f: "fetch http c1 url [(''format'', fmt)] ru = (fetched, c2)"
    by (cases "fetch http c1 url [(''format'', fmt)] ru")
  have dh: "distinct (map fst (effective_headers hs fmt))"
    using dict by (rule effective_headers_distinct)
  from apply_headers_saved [OF indep dh a] h
  have saved: "map_of orig h = Some (get_headers http c h)" and dorig: "distinct (map fst orig)"
    by simp_all
  from ret Request_unfold [OF a f, of d tk only nc]
  have "c' = restore_headers http c2 orig"
    by (auto split: sum.splits)
  then have "get_headers http c' h = get_headers http c h"
    using restore_headers_get [OF same indep dorig, of c2 h] saved by simp
  with saved a show ?thesis by simp
qed

theorem Request_restores_headers_witness:
  "Request (fixed_answer_client (Inr (PDict [(''response'', PStr ''5'')]))) (table_decoder [(''5'', Inr (PInt 5))])
       \<lparr>headers = [(''Accept'', PStr ''text/html''), (''User-Agent'', PStr ''Mozilla/5.0'')],
        base_url = []\<rparr>
       (Url ''https://example.org/rates'') (Some [(''User-Agent'', PStr ''probe'')]) ''json''
       ''response'' True False False
     = (Inr (PInt 5),
        \<lparr>headers = [(''Accept'', PStr ''text/html''), (''User-Agent'', PStr ''Mozilla/5.0'')],
         base_url = ''https://example.org/rates''\<rparr>)
   \<and> get_headers (fixed_answer_client (Inr (PDict [(''response'', PStr ''5'')])))
        \<lparr>headers = [(''Accept'', PStr ''text/html''), (''User-Agent'', PStr ''Mozilla/5.0'')],
         base_url = ''https://example.org/rates''\<rparr> ''Accept''
     = get_headers (fixed_answer_client (Inr (PDict [(''response'', PStr ''5'')])))
        \<lparr>headers = [(''Accept'', PStr ''text/html''), (''User-Agent'', PStr ''Mozilla/5.0'')],
         base_url = []\<rparr> ''Accept''"
proof -
  let ?http = "fixed_answer_client (Inr (PDict [(''response'', PStr ''5'')]))"
  let ?c = "\<lparr>headers = [(''Accept'', PStr ''text/html''), (''User-Agent'', PStr ''Mozilla/5.0'')],
             base_url = []\<rparr>"
  let ?c' = "\<lparr>headers = [(''Accept'', PStr ''text/html''), (''User-Agent'', PStr ''Mozilla/5.0'')],
              base_url = ''https://example.org/rates''\<rparr>"
  have same: "\<And>c h v. get_headers ?http (update_header ?http c h v) h = v"
    by (simp add: fixed_answer_client_def update_conv')
  have indep: "\<And>c h h' v. h \<noteq> h' \<Longrightarrow>
      get_headers ?http (update_header ?http c h' v) h = get_headers ?http c h"
    by (simp add: fixed_answer_client_def update_conv')
  have dict: "distinct (map fst (case Some [(''User-Agent'', PStr ''probe'')] of
                                   None \<Rightarrow> [] | Some l \<Rightarrow> l))"
    by simp
  have n: "normalize_response (table_decoder [(''5'', Inr (PInt 5))]) (PDict [(''response'', PStr ''5'')])
             ''response'' False False = Inr (PInt 5)"
    by (simp add: normalize_response_def process_result_def json_loads_table)
  have ret: "Request ?http (table_decoder [(''5'', Inr (PInt 5))]) ?c (Url ''https://example.org/rates'')
               (Some [(''User-Agent'', PStr ''probe'')]) ''json'' ''response'' True False False
             = (Inr (PInt 5), ?c')"
    by (simp add: Request_def client_eval n)
  have h: "''Accept'' \<in> fst ` set (effective_headers (Some [(''User-Agent'', PStr ''probe'')]) ''json'')"
    by (simp add: effective_headers_def)
  from Request_restores_headers [OF same indep dict ret h] ret show ?thesis
    by simp
qed

text \<open>
  An exception of the fetch is not caught: it leaves \<open>Request\<close> with the overrides still
  on the connection, since the restore loop comes after the fetch.
\<close>

lemma Request_transport_error:
  assumes "apply_headers http c (effective_headers hs fmt) = (orig, c1)"
    and "fetch http c1 url [(''format'', fmt)] ru = (Inl e, c2)"
  shows "Request http d c url hs fmt tk ru only nc = (Inl e, c2)"
  using Request_unfold [OF assms] by simp

lemma Request_transport_error_example:
  "Request (fixed_answer_client (Inl (TransportError ''timeout''))) (table_decoder [])
       \<lparr>headers = [(''Accept'', PStr ''text/html'')], base_url = []\<rparr>
       (Urls [''https://example.org/a'', ''https://example.org/b'']) None ''json''
       ''response'' True False False
     = (Inl (TransportError ''timeout''),
        \<lparr>headers = [(''Accept'', PStr ''application/json'')], base_url = []\<rparr>)"
  by (simp add: Request_def client_eval)

section \<open>The examples of the specification\<close>

lemma example_single_match:
  "normalize_response (table_decoder [(''1'', Inr (PInt 1))])
     (PDict [(''a'', PStr ''1''), (''response'', PDict [(''x'', PInt 1)])])
     ''response'' False False
   = Inr (PDict [(''x'', PInt 1)])"
  by (simp add: normalize_response_def process_result_def json_loads_table)

lemma example_two_matches:
  "normalize_response (table_decoder [(''5'', Inr (PInt 5)), (''7'', Inr (PInt 7))])
     (PList [PDict [(''response'', PStr ''5'')], PDict [(''response'', PStr ''7'')]])
     ''response'' False False
   = Inr (PList [PInt 5, PInt 7])"
  by (simp add: normalize_response_def process_result_def json_loads_table)

lemma example_keep_structure:
  "normalize_response (table_decoder [(''5'', Inr (PInt 5)), (''7'', Inr (PInt 7))])
     (PList [PDict [(''response'', PStr ''5'')], PDict [(''response'', PStr ''7'')]])
     ''response'' False True
   = Inr (PList [PDict [(''response'', PInt 5)], PDict [(''response'', PInt 7)]])"
  by (simp add: normalize_response_def process_result_def json_loads_table)

lemma example_undecodable_string:
  "deep_parse_json (table_decoder [(''5'', Inr (PInt 5))]) (PStr ''five'') = Inr (PStr ''five'')"
  by (simp add: json_loads_table)

lemma example_fallback_value_error:
  "fst (Request (fixed_answer_client (Inr (PList [PStr long_integer_text])))
          (table_decoder [(long_integer_text, Inl ValueError)])
          \<lparr>headers = [], base_url = []\<rparr>
          (Url ''https://example.org/rates'') None ''html'' ''response'' True False False)
   = Inr (PList [PStr long_integer_text])"
  by (simp add: Request_def client_eval normalize_response_def json_loads_table)

end
